theory Spec2Isabelle
  imports Complex_Main
begin

text \<open>
  A model of two parts of the indexing framework: the versioned (bitemporal) Postgres
  indexing store of \<^verbatim>\<open>indexing-store/postgres/store.ts\<close> and the rate-limited request
  queue of \<^verbatim>\<open>requestQueue.ts\<close>. Every table of the store is a list of rows in physical
  order; every statement of the source is a function on such a list that either fails with
  the error Postgres or Kysely raises, or returns the rows it affected and the new table.
\<close>

section \<open>Checkpoints as they are stored\<close>

text \<open>
  A checkpoint is a position in chain history; the store only encodes checkpoints and
  compares the encodings, so a checkpoint is carried as its rank in the total order. The two
  text columns \<^verbatim>\<open>effectiveFromCheckpoint\<close> and \<^verbatim>\<open>effectiveToCheckpoint\<close> hold either an
  encoded checkpoint or the sentinel \<^verbatim>\<open>"latest"\<close>.
\<close>

type_synonym checkpoint = nat

datatype cptext = Encoded nat | Latest

text \<open>
  Modelled from the spec: \<^verbatim>\<open>encodeCheckpoint\<close> of \<^verbatim>\<open>utils/checkpoint.js\<close>, which is not
  among the sources. The spec gives its result as a fixed-width string of digits such that
  string comparison equals the comparison of the checkpoints.
\<close>

definition encodeCheckpoint :: "checkpoint \<Rightarrow> cptext" where
  "encodeCheckpoint c = Encoded c"

text \<open>
  The comparison of two stored strings, which SQL (\<^verbatim>\<open>>=\<close>, \<^verbatim>\<open><=\<close>, \<^verbatim>\<open>>\<close>) and
  JavaScript (\<^verbatim>\<open>>\<close>) apply to the checkpoint columns: encoded checkpoints compare as the
  checkpoints do, and \<^verbatim>\<open>"latest"\<close>, which starts with a letter, sorts strictly after every
  string of digits.
\<close>

fun text_less :: "cptext \<Rightarrow> cptext \<Rightarrow> bool" where
  "text_less (Encoded a) (Encoded b) = (a < b)"
| "text_less (Encoded a) Latest = True"
| "text_less Latest b = False"

definition text_le :: "cptext \<Rightarrow> cptext \<Rightarrow> bool" where
  "text_le a b = (a = b \<or> text_less a b)"

section \<open>The id comparison\<close>

text \<open>
  \<^verbatim>\<open>idColumnComparator\<close> compares ids with \<^verbatim>\<open>ilike\<close> when the id column has type
  \<^verbatim>\<open>bytes\<close> and with \<^verbatim>\<open>=\<close> otherwise. Postgres' \<^verbatim>\<open>ILIKE\<close> matches its left operand
  against a pattern, ignoring case: \<^verbatim>\<open>%\<close> stands for any sequence of characters,
  \<^verbatim>\<open>_\<close> for any one character, and a backslash takes the next character literally (a
  pattern that ends in a lone backslash is answered here with no match). Case is folded on
  the ASCII letters.
\<close>

definition lower_char :: "char \<Rightarrow> char" where
  "lower_char c =
     (case map_of (zip ''ABCDEFGHIJKLMNOPQRSTUVWXYZ'' ''abcdefghijklmnopqrstuvwxyz'') c of
        Some l \<Rightarrow> l | None \<Rightarrow> c)"

definition lower :: "string \<Rightarrow> string" where
  "lower s = map lower_char s"

fun like_match :: "string \<Rightarrow> string \<Rightarrow> bool" where
  "like_match [] s = (s = [])"
| "like_match (p # ps) s =
     (if p = CHR ''%'' then
        (like_match ps s \<or> (case s of [] \<Rightarrow> False | c # cs \<Rightarrow> like_match (p # ps) cs))
      else if p = CHR ''_'' then
        (case s of [] \<Rightarrow> False | c # cs \<Rightarrow> like_match ps cs)
      else if p = CHR 0x5C then
        (case ps of [] \<Rightarrow> False
         | q # qs \<Rightarrow> (case s of [] \<Rightarrow> False | c # cs \<Rightarrow> c = q \<and> like_match qs cs))
      else
        (case s of [] \<Rightarrow> False | c # cs \<Rightarrow> c = p \<and> like_match ps cs))"

definition ilike :: "string \<Rightarrow> string \<Rightarrow> bool" where
  "ilike s pattern = like_match (lower pattern) (lower s)"


section \<open>Schema\<close>

text \<open>
  Modelled from the spec: the column descriptors of \<^verbatim>\<open>schema/types.js\<close> and the
  predicates of \<^verbatim>\<open>schema/utils.js\<close>, which are not among the sources. The spec lists the
  kinds of a column (scalar, enum, reference, one, many) and the scalar types; the store
  reads of a column its kind (\<^verbatim>\<open>isOneColumn\<close>, \<^verbatim>\<open>isManyColumn\<close>, \<^verbatim>\<open>isEnumColumn\<close>,
  \<^verbatim>\<open>isReferenceColumn\<close>) and its \<^verbatim>\<open>type\<close>, \<^verbatim>\<open>optional\<close> and \<^verbatim>\<open>list\<close> properties.
  The \<^verbatim>\<open>type\<close> of an enum column is the name of the enum, that of a reference column the
  scalar type of the id it refers to.
\<close>

datatype scalar = boolean_t | int_t | float_t | string_t | bigint_t | bytes_t

fun scalar_name :: "scalar \<Rightarrow> string" where
  "scalar_name boolean_t = ''boolean''"
| "scalar_name int_t = ''int''"
| "scalar_name float_t = ''float''"
| "scalar_name string_t = ''string''"
| "scalar_name bigint_t = ''bigint''"
| "scalar_name bytes_t = ''bytes''"

datatype column =
    BaseColumn scalar bool bool
  | ReferenceColumn scalar bool
  | EnumColumn string bool
  | OneColumn
  | ManyColumn

fun isOneColumn :: "column \<Rightarrow> bool" where
  "isOneColumn OneColumn = True"
| "isOneColumn c = False"

fun isManyColumn :: "column \<Rightarrow> bool" where
  "isManyColumn ManyColumn = True"
| "isManyColumn c = False"

fun isEnumColumn :: "column \<Rightarrow> bool" where
  "isEnumColumn (EnumColumn ty opt) = True"
| "isEnumColumn c = False"

fun isReferenceColumn :: "column \<Rightarrow> bool" where
  "isReferenceColumn (ReferenceColumn ty opt) = True"
| "isReferenceColumn c = False"

fun column_type :: "column \<Rightarrow> string option" where
  "column_type (BaseColumn ty opt lst) = Some (scalar_name ty)"
| "column_type (ReferenceColumn ty opt) = Some (scalar_name ty)"
| "column_type (EnumColumn ty opt) = Some ty"
| "column_type c = None"

fun column_optional :: "column \<Rightarrow> bool" where
  "column_optional (BaseColumn ty opt lst) = opt"
| "column_optional (ReferenceColumn ty opt) = opt"
| "column_optional (EnumColumn ty opt) = opt"
| "column_optional c = False"

fun column_list :: "column \<Rightarrow> bool" where
  "column_list (BaseColumn ty opt lst) = lst"
| "column_list c = False"

record Schema =
  tables :: "(string \<times> (string \<times> column) list) list"
  enums :: "(string \<times> string list) list"

section \<open>Versioned tables\<close>

text \<open>
  A value is what \<^verbatim>\<open>formatColumnValue\<close> hands to the database: a number, a text or
  \<^verbatim>\<open>null\<close>. An object is a JavaScript object of such values, with its keys in order. The
  objects that the operations take as \<^verbatim>\<open>data\<close> range over the columns other than
  \<^verbatim>\<open>id\<close>, as their type \<^verbatim>\<open>Omit<Row, "id">\<close> says, and are taken as they leave
  \<^verbatim>\<open>formatRow\<close>, which converts the values and keeps the keys. An id is the text bound to
  the query parameter.

  A row of \<^verbatim>\<open><table>_versioned\<close> holds the id, the other declared columns and the two
  checkpoint columns. The table itself is the list of columns that \<^verbatim>\<open>reload\<close> created
  (with their \<^verbatim>\<open>NOT NULL\<close> and \<^verbatim>\<open>CHECK\<close> constraints) and the list of its rows. Its
  primary key is \<^verbatim>\<open>(id, effectiveToCheckpoint)\<close>, compared as stored.
\<close>

datatype val = Null | Num int | Text string

type_synonym object = "(string \<times> val) list"

record row =
  id_col :: string
  cols :: object
  effectiveFromCheckpoint :: cptext
  effectiveToCheckpoint :: cptext

record sqlcolumn =
  sql_type :: string
  not_null :: bool
  check_in :: "string list option"

record table =
  columns :: "(string \<times> sqlcolumn) list"
  rows :: "row list"

text \<open>
  What a call can throw: Kysely's \<^verbatim>\<open>NoResultError\<close> (from
  \<^verbatim>\<open>executeTakeFirstOrThrow\<close>), an \<^verbatim>\<open>Error\<close> with its message, a JavaScript
  \<^verbatim>\<open>TypeError\<close> (a property of \<^verbatim>\<open>undefined\<close>), and the errors of the database.
\<close>

datatype error =
    NoResultError
  | Error string
  | TypeError
  | UndefinedTable
  | UndefinedColumn
  | SyntaxError
  | NotNullViolation
  | CheckViolation
  | UniqueViolation

definition and_then :: "error + 'a \<Rightarrow> ('a \<Rightarrow> error + 'b) \<Rightarrow> error + 'b" where
  "and_then m f = (case m of Inl e \<Rightarrow> Inl e | Inr a \<Rightarrow> f a)"

fun first_error :: "error option list \<Rightarrow> error option" where
  "first_error [] = None"
| "first_error (None # es) = first_error es"
| "first_error (Some e # es) = Some e"

definition executeTakeFirst :: "'a list \<Rightarrow> 'a option" where
  "executeTakeFirst rs = (case rs of [] \<Rightarrow> None | r # _ \<Rightarrow> Some r)"

definition executeTakeFirstOrThrow :: "'a list \<Rightarrow> error + 'a" where
  "executeTakeFirstOrThrow rs = (case rs of [] \<Rightarrow> Inl NoResultError | r # _ \<Rightarrow> Inr r)"

text \<open>
  The statements. \<^verbatim>\<open>INSERT\<close> rejects a column the table does not have, fills the columns
  the object leaves out with \<^verbatim>\<open>NULL\<close>, and checks \<^verbatim>\<open>NOT NULL\<close>, the enum \<^verbatim>\<open>CHECK\<close> and
  the primary key; it is all or nothing over the rows of one statement. \<^verbatim>\<open>UPDATE\<close> checks
  the same on the rows it rewrites; \<^verbatim>\<open>.set({})\<close> with nothing to set is malformed SQL.
  The updates of the store assign constants to the key columns, so an update meets a
  duplicate key while it runs exactly when its result holds one, and the check is made on
  the result. Type errors of single values are not modelled.
\<close>

definition pk :: "row \<Rightarrow> string \<times> cptext" where
  "pk r = (id_col r, effectiveToCheckpoint r)"

definition user_columns :: "table \<Rightarrow> (string \<times> sqlcolumn) list" where
  "user_columns t = filter (\<lambda>(c, d). c \<noteq> ''id'') (columns t)"

definition unknown_column :: "table \<Rightarrow> object \<Rightarrow> bool" where
  "unknown_column t obj = (\<exists>k \<in> set (map fst obj). k \<notin> set (map fst (user_columns t)))"

definition check_value :: "sqlcolumn \<Rightarrow> val \<Rightarrow> error option" where
  "check_value d v =
     (if not_null d \<and> v = Null then Some NotNullViolation
      else case check_in d of
             None \<Rightarrow> None
           | Some vs \<Rightarrow> if v = Null \<or> v \<in> set (map Text vs) then None else Some CheckViolation)"

definition column_value :: "object \<Rightarrow> string \<Rightarrow> val" where
  "column_value obj c = (case map_of obj c of None \<Rightarrow> Null | Some v \<Rightarrow> v)"

definition check_row :: "table \<Rightarrow> row \<Rightarrow> error option" where
  "check_row t r = first_error (map (\<lambda>(c, d). check_value d (column_value (cols r) c)) (user_columns t))"

definition stored :: "table \<Rightarrow> row \<Rightarrow> row" where
  "stored t r = r\<lparr>cols := map (\<lambda>(c, d). (c, column_value (cols r) c)) (user_columns t)\<rparr>"

definition insertInto :: "table \<Rightarrow> row list \<Rightarrow> error + (row list \<times> table)" where
  "insertInto t vs =
     (if \<exists>v \<in> set vs. unknown_column t (cols v) then Inl UndefinedColumn
      else let new = map (stored t) vs in
        case first_error (map (check_row t) new) of
          Some e \<Rightarrow> Inl e
        | None \<Rightarrow>
            if distinct (map pk (rows t @ new)) then Inr (new, t\<lparr>rows := rows t @ new\<rparr>)
            else Inl UniqueViolation)"

definition updateTable :: "table \<Rightarrow> (row \<Rightarrow> row) \<Rightarrow> (row \<Rightarrow> bool) \<Rightarrow> error + (row list \<times> table)" where
  "updateTable t f P =
     (let returning = map f (filter P (rows t)) in
      case first_error (map (check_row t) returning) of
        Some e \<Rightarrow> Inl e
      | None \<Rightarrow>
          if distinct (map pk (map (\<lambda>r. if P r then f r else r) (rows t)))
          then Inr (returning, t\<lparr>rows := map (\<lambda>r. if P r then f r else r) (rows t)\<rparr>)
          else Inl UniqueViolation)"

definition set_object :: "string option \<Rightarrow> object \<Rightarrow> row \<Rightarrow> row" where
  "set_object i obj r =
     r\<lparr>id_col := (case i of None \<Rightarrow> id_col r | Some x \<Rightarrow> x),
       cols := map (\<lambda>(c, v). (c, case map_of obj c of None \<Rightarrow> v | Some v' \<Rightarrow> v')) (cols r)\<rparr>"

definition set_effectiveToCheckpoint :: "cptext \<Rightarrow> row \<Rightarrow> row" where
  "set_effectiveToCheckpoint x r = r\<lparr>effectiveToCheckpoint := x\<rparr>"

definition updateTable_set :: "table \<Rightarrow> string option \<Rightarrow> object \<Rightarrow> (row \<Rightarrow> bool) \<Rightarrow> error + (row list \<times> table)" where
  "updateTable_set t i obj P =
     (if i = None \<and> obj = [] then Inl SyntaxError
      else if unknown_column t obj then Inl UndefinedColumn
      else updateTable t (set_object i obj) P)"

definition deleteFrom :: "table \<Rightarrow> (row \<Rightarrow> bool) \<Rightarrow> row list \<times> table" where
  "deleteFrom t P = (filter P (rows t), t\<lparr>rows := filter (\<lambda>r. \<not> P r) (rows t)\<rparr>)"

definition selectFrom :: "table \<Rightarrow> (row \<Rightarrow> bool) \<Rightarrow> row list" where
  "selectFrom t P = filter P (rows t)"

section \<open>The store\<close>

text \<open>
  The state of a \<^verbatim>\<open>PostgresIndexingStore\<close>: its \<^verbatim>\<open>schema\<close> field and the tables of its
  private database schema. A transaction commits the table its body returns, or rolls back
  and leaves the store as it was when the body throws.
\<close>

record store =
  schema :: "Schema option"
  db :: "string \<rightharpoonup> table"

definition versioned :: "string \<Rightarrow> string" where
  "versioned tableName = tableName @ ''_versioned''"

definition transaction :: "store \<Rightarrow> string \<Rightarrow> (table \<Rightarrow> error + ('a \<times> table)) \<Rightarrow> (error + 'a) \<times> store" where
  "transaction s tbl body =
     (case db s tbl of
        None \<Rightarrow> (Inl UndefinedTable, s)
      | Some t \<Rightarrow>
          (case body t of
             Inl e \<Rightarrow> (Inl e, s)
           | Inr (a, t') \<Rightarrow> (Inr a, s\<lparr>db := (db s)(tbl \<mapsto> t')\<rparr>)))"

datatype comparator = Eq | ILike

definition idColumnComparator :: "Schema option \<Rightarrow> string \<Rightarrow> error + comparator" where
  "idColumnComparator sch tableName =
     (case sch of
        None \<Rightarrow> Inr Eq
      | Some sc \<Rightarrow>
          (case map_of (tables sc) tableName of
             None \<Rightarrow> Inr Eq
           | Some cs \<Rightarrow>
               (case map_of cs ''id'' of
                  None \<Rightarrow> Inl TypeError
                | Some c \<Rightarrow> Inr (if column_type c = Some ''bytes'' then ILike else Eq))))"

fun compare_id :: "comparator \<Rightarrow> string \<Rightarrow> string \<Rightarrow> bool" where
  "compare_id Eq stored_id formattedId = (stored_id = formattedId)"
| "compare_id ILike stored_id formattedId = ilike stored_id formattedId"


section \<open>reload: the tables a schema declares\<close>







section \<open>deserializeRow\<close>

text \<open>
  \<^verbatim>\<open>deserializeRow\<close> walks the columns the schema declares for the table. A list column is
  handed to \<^verbatim>\<open>JSON.parse\<close> (and, for \<^verbatim>\<open>bigint\<close>, mapped through \<^verbatim>\<open>BigInt\<close>):
  \<open>DJsonParse v b\<close> stands for that parsed value of the stored \<open>v\<close>.
\<close>

datatype dval = DNull | DBool bool | DVal val | DJsonParse val bool

type_synonym Row = "(string \<times> dval) list"

definition row_get :: "row \<Rightarrow> string \<Rightarrow> val option" where
  "row_get r columnName =
     (if columnName = ''id'' then Some (Text (id_col r)) else map_of (cols r) columnName)"

definition deserializeColumn :: "column \<Rightarrow> val option \<Rightarrow> dval option" where
  "deserializeColumn column v =
     (case v of
        None \<Rightarrow> Some DNull
      | Some Null \<Rightarrow> Some DNull
      | Some x \<Rightarrow>
          if isOneColumn column then None
          else if isManyColumn column then None
          else if \<not> isEnumColumn column \<and> \<not> isReferenceColumn column \<and> column_list column
            then Some (DJsonParse x (column_type column = Some ''bigint''))
          else if column_type column = Some ''boolean'' then Some (DBool (x = Num 1))
          else Some (DVal x))"

definition deserializeRow :: "Schema option \<Rightarrow> string \<Rightarrow> row \<Rightarrow> error + Row" where
  "deserializeRow sch tableName r =
     (case sch of
        None \<Rightarrow> Inl TypeError
      | Some sc \<Rightarrow>
          (case map_of (tables sc) tableName of
             None \<Rightarrow> Inl TypeError
           | Some cs \<Rightarrow>
               Inr (List.map_filter
                  (\<lambda>(columnName, column).
                     map_option (Pair columnName) (deserializeColumn column (row_get r columnName)))
                  cs)))"


section \<open>Read and write operations\<close>


definition returning_first :: "error + (row list \<times> table) \<Rightarrow> error + (row \<times> table)" where
  "returning_first m =
     and_then m (\<lambda>(ret, t). and_then (executeTakeFirstOrThrow ret) (\<lambda>r. Inr (r, t)))"






datatype update_data = Partial object | Callback "Row \<Rightarrow> object"

definition spread :: "object \<Rightarrow> object \<Rightarrow> object" where
  "spread a b =
     map (\<lambda>(k, v). (k, case map_of b k of None \<Rightarrow> v | Some v' \<Rightarrow> v')) a
       @ filter (\<lambda>(k, v). map_of a k = None) b"

definition update_latest ::
  "error + comparator \<Rightarrow> (row \<Rightarrow> error + Row) \<Rightarrow> cptext \<Rightarrow> string \<Rightarrow> bool \<Rightarrow> update_data
     \<Rightarrow> row \<Rightarrow> table \<Rightarrow> error + (row \<times> table)" where
  "update_latest comparator deserialize encodedCheckpoint formattedId with_id data latestRow t =
     and_then (case data of
                 Partial obj \<Rightarrow> Inr obj
               | Callback f \<Rightarrow> and_then (deserialize latestRow) (\<lambda>current. Inr (f current)))
       (\<lambda>updateRow.
          if text_less encodedCheckpoint (effectiveFromCheckpoint latestRow)
            then Inl (Error ''Cannot update a record in the past'')
          else and_then comparator (\<lambda>cmp.
            if effectiveFromCheckpoint latestRow = encodedCheckpoint then
              returning_first
                (updateTable_set t (if with_id then Some formattedId else None) updateRow
                   (\<lambda>r. compare_id cmp (id_col r) formattedId \<and>
                        effectiveFromCheckpoint r = encodedCheckpoint))
            else
              and_then (updateTable t (set_effectiveToCheckpoint encodedCheckpoint)
                          (\<lambda>r. compare_id cmp (id_col r) formattedId \<and>
                               effectiveToCheckpoint r = Latest))
                (\<lambda>(ret, t1).
                   returning_first (insertInto t1
                     [\<lparr>id_col = formattedId, cols = spread (cols latestRow) updateRow,
                       effectiveFromCheckpoint = encodedCheckpoint,
                       effectiveToCheckpoint = Latest\<rparr>]))))"

definition update ::
  "store \<Rightarrow> string \<Rightarrow> checkpoint \<Rightarrow> string \<Rightarrow> update_data \<Rightarrow> (error + Row) \<times> store" where
  "update s tableName checkpoint i data =
     (case idColumnComparator (schema s) tableName of
        Inl e \<Rightarrow> (Inl e, s)
      | Inr cmp \<Rightarrow>
          (case transaction s (versioned tableName) (\<lambda>t.
                  and_then (executeTakeFirstOrThrow (selectFrom t (\<lambda>r.
                               compare_id cmp (id_col r) i \<and> effectiveToCheckpoint r = Latest)))
                    (\<lambda>latestRow.
                       update_latest (Inr cmp) (deserializeRow (schema s) tableName)
                         (encodeCheckpoint checkpoint) i True data latestRow t)) of
             (Inl e, s') \<Rightarrow> (Inl e, s')
           | (Inr r, s') \<Rightarrow> (deserializeRow (schema s') tableName r, s')))"



definition upsert ::
  "store \<Rightarrow> string \<Rightarrow> checkpoint \<Rightarrow> string \<Rightarrow> object \<Rightarrow> update_data \<Rightarrow> (error + Row) \<times> store" where
  "upsert s tableName checkpoint i createData updateData =
     (case idColumnComparator (schema s) tableName of
        Inl e \<Rightarrow> (Inl e, s)
      | Inr cmp \<Rightarrow>
          (case transaction s (versioned tableName) (\<lambda>t.
                  case executeTakeFirst (selectFrom t (\<lambda>r.
                          compare_id cmp (id_col r) i \<and> effectiveToCheckpoint r = Latest)) of
                    None \<Rightarrow>
                      returning_first (insertInto t
                        [\<lparr>id_col = i, cols = createData,
                          effectiveFromCheckpoint = encodeCheckpoint checkpoint,
                          effectiveToCheckpoint = Latest\<rparr>])
                  | Some latestRow \<Rightarrow>
                      update_latest (Inr cmp) (deserializeRow (schema s) tableName)
                        (encodeCheckpoint checkpoint) i True updateData latestRow t) of
             (Inl e, s') \<Rightarrow> (Inl e, s')
           | (Inr r, s') \<Rightarrow> (deserializeRow (schema s') tableName r, s')))"


definition revert_table :: "cptext \<Rightarrow> table \<Rightarrow> error + table" where
  "revert_table encodedCheckpoint t =
     (case deleteFrom t (\<lambda>r. text_le encodedCheckpoint (effectiveFromCheckpoint r)) of
        (deleted, t1) \<Rightarrow>
          and_then (updateTable t1 (set_effectiveToCheckpoint Latest)
                      (\<lambda>r. text_le encodedCheckpoint (effectiveToCheckpoint r)))
            (\<lambda>(ret, t2). Inr t2))"

fun revert_tables :: "cptext \<Rightarrow> string list \<Rightarrow> (string \<rightharpoonup> table) \<Rightarrow> error + (string \<rightharpoonup> table)" where
  "revert_tables encodedCheckpoint [] d = Inr d"
| "revert_tables encodedCheckpoint (tableName # tableNames) d =
     (case d (versioned tableName) of
        None \<Rightarrow> Inl UndefinedTable
      | Some t \<Rightarrow>
          and_then (revert_table encodedCheckpoint t) (\<lambda>t'.
            revert_tables encodedCheckpoint tableNames (d(versioned tableName \<mapsto> t'))))"

definition revert :: "store \<Rightarrow> checkpoint \<Rightarrow> (error + unit) \<times> store" where
  "revert s checkpoint =
     (case revert_tables (encodeCheckpoint checkpoint)
             (case schema s of None \<Rightarrow> [] | Some sc \<Rightarrow> map fst (tables sc)) (db s) of
        Inl e \<Rightarrow> (Inl e, s)
      | Inr d \<Rightarrow> (Inr (), s\<lparr>db := d\<rparr>))"

section \<open>RequestQueue\<close>

text \<open>
  \<^verbatim>\<open>createRequestQueue\<close> derives two constants from \<^verbatim>\<open>maxRequestsPerSecond\<close>:
  \<^verbatim>\<open>
  const interval =
    1000 / maxRequestsPerSecond > 50 ? 1000 / maxRequestsPerSecond : 50;
  const requestBatchSize =
    1000 / maxRequestsPerSecond > 50 ? 1 : Math.floor(maxRequestsPerSecond / 20);
  \<close>
  The JavaScript number is read as the real number it denotes.
\<close>

definition interval :: "real \<Rightarrow> real" where
  "interval maxRequestsPerSecond =
     (if 1000 / maxRequestsPerSecond > 50 then 1000 / maxRequestsPerSecond else 50)"

definition requestBatchSize :: "real \<Rightarrow> int" where
  "requestBatchSize maxRequestsPerSecond =
     (if 1000 / maxRequestsPerSecond > 50 then 1 else \<lfloor>maxRequestsPerSecond / 20\<rfloor>)"

text \<open>
  The queue as a state machine. A task holds the \<^verbatim>\<open>resolve\<close> and \<^verbatim>\<open>reject\<close> of the
  promise that \<^verbatim>\<open>request\<close> returned; \<open>promise\<close> names that promise, \<open>promises\<close> records
  how each promise was settled, and \<open>created\<close> counts the promises made so far. \<open>in_flight\<close>
  are the calls of \<^verbatim>\<open>transport.request\<close> that have not settled yet, each with the
  \<^verbatim>\<open>_id\<close> it captured, and \<open>timer\<close> is the delay of the armed \<^verbatim>\<open>setTimeout\<close>. The
  events are the calls of the queue's methods and the two callbacks of the environment, the
  timer and the transport; each carries the value of \<^verbatim>\<open>Date.now()\<close> it reads.
\<close>

record 'p task =
  params :: 'p
  promise :: nat

datatype ('a, 'e) settlement = Resolved 'a | Rejected 'e

record ('p, 'a, 'e) request_queue =
  maxRequestsPerSecond :: real
  queue :: "'p task list"
  lastRequestTime :: real
  pending :: int
  timing :: bool
  on :: bool
  id_var :: nat
  pendingRequests :: "nat \<rightharpoonup> nat"
  timer :: "real option"
  in_flight :: "(nat \<times> 'p task) list"
  promises :: "nat \<rightharpoonup> ('a, 'e) settlement"
  created :: nat

definition createRequestQueue :: "real \<Rightarrow> ('p, 'a, 'e) request_queue" where
  "createRequestQueue R =
     \<lparr>maxRequestsPerSecond = R, queue = [], lastRequestTime = 0, pending = 0, timing = False,
      on = True, id_var = 0, pendingRequests = Map.empty, timer = None, in_flight = [],
      promises = Map.empty, created = 0\<rparr>"

definition send :: "'p task \<Rightarrow> ('p, 'a, 'e) request_queue \<Rightarrow> ('p, 'a, 'e) request_queue" where
  "send t s =
     s\<lparr>pending := pending s + 1,
       pendingRequests := (pendingRequests s)(id_var s \<mapsto> promise t),
       in_flight := in_flight s @ [(id_var s, t)]\<rparr>"

fun dispatch :: "nat \<Rightarrow> ('p, 'a, 'e) request_queue \<Rightarrow> ('p, 'a, 'e) request_queue" where
  "dispatch 0 s = s"
| "dispatch (Suc n) s =
     (case queue s of
        [] \<Rightarrow> s
      | t # rest \<Rightarrow>
          let s1 = send t (s\<lparr>queue := rest\<rparr>)
          in if queue s1 = [] then s1 else dispatch n s1)"

definition processQueue :: "real \<Rightarrow> ('p, 'a, 'e) request_queue \<Rightarrow> ('p, 'a, 'e) request_queue" where
  "processQueue now s =
     (if \<not> on s then s
      else if queue s = [] then s
      else
        let timeSinceLastRequest = now - lastRequestTime s;
            due = (timeSinceLastRequest \<ge> interval (maxRequestsPerSecond s));
            s1 = (if due
                  then dispatch (nat (requestBatchSize (maxRequestsPerSecond s)))
                         (s\<lparr>lastRequestTime := now\<rparr>)
                  else s);
            timeSinceLastRequest' = (if due then 0 else timeSinceLastRequest)
        in if \<not> timing s1
           then s1\<lparr>timing := True,
                   timer := Some (interval (maxRequestsPerSecond s) - timeSinceLastRequest')\<rparr>
           else s1)"

datatype ('p, 'a, 'e) event =
    Request 'p real
  | Timeout real
  | Settled nat "('a, 'e) settlement"
  | Start real
  | Pause
  | Clear

fun step :: "('p, 'a, 'e) request_queue \<Rightarrow> ('p, 'a, 'e) event \<Rightarrow> ('p, 'a, 'e) request_queue" where
  "step s (Request p now) =
     processQueue now
       (s\<lparr>queue := queue s @ [\<lparr>params = p, promise = created s\<rparr>], created := Suc (created s)\<rparr>)"
| "step s (Timeout now) =
     (case timer s of
        None \<Rightarrow> s
      | Some delay \<Rightarrow> processQueue now (s\<lparr>timer := None, timing := False\<rparr>))"
| "step s (Settled k outcome) =
     (if k < length (in_flight s) then
        (case in_flight s ! k of
           (i, t) \<Rightarrow>
             s\<lparr>in_flight := take k (in_flight s) @ drop (Suc k) (in_flight s),
               promises := (if promises s (promise t) = None
                            then (promises s)(promise t \<mapsto> outcome) else promises s),
               pendingRequests := (pendingRequests s)(i := None),
               id_var := id_var s + 1,
               pending := pending s - 1\<rparr>)
      else s)"
| "step s (Start now) = processQueue now (s\<lparr>on := True\<rparr>)"
| "step s Pause = s\<lparr>on := False\<rparr>"
| "step s Clear = s\<lparr>queue := [], lastRequestTime := 0\<rparr>"

definition run :: "('p, 'a, 'e) request_queue \<Rightarrow> ('p, 'a, 'e) event list \<Rightarrow> ('p, 'a, 'e) request_queue" where
  "run s es = foldl step s es"

text \<open>
  Bookkeeping for the proofs about the queue: the promises of the tasks still queued, those of
  the requests in flight, the promises that no task holds any more (\<open>dropped\<close>), and the
  invariant of the reachable states.
\<close>

definition waiting :: "('p, 'a, 'e) request_queue \<Rightarrow> nat list" where
  "waiting s = map promise (queue s)"

definition flying :: "('p, 'a, 'e) request_queue \<Rightarrow> nat list" where
  "flying s = map (\<lambda>x. promise (snd x)) (in_flight s)"

definition dropped :: "('p, 'a, 'e) request_queue \<Rightarrow> nat \<Rightarrow> bool" where
  "dropped s p \<longleftrightarrow>
     p < created s \<and> promises s p = None \<and> p \<notin> set (waiting s) \<union> set (flying s)"

definition queue_wf :: "('p, 'a, 'e) request_queue \<Rightarrow> bool" where
  "queue_wf s \<longleftrightarrow>
     (\<forall>p \<in> set (waiting s) \<union> set (flying s). p < created s \<and> promises s p = None) \<and>
     (\<forall>p. created s \<le> p \<longrightarrow> promises s p = None) \<and>
     distinct (waiting s @ flying s)"

section \<open>Bookkeeping for the store and a running example\<close>

text \<open>
  A text is plain when it holds none of the three characters that \<^verbatim>\<open>LIKE\<close> reads as
  pattern syntax. The value of a \<^verbatim>\<open>bytes\<close> column is a hexadecimal string (\<open>is_hex\<close>),
  \<^verbatim>\<open>0x\<close> followed by hexadecimal digits, and every such string is plain.

  The current versions of an id are the rows that \<^verbatim>\<open>update\<close>, \<^verbatim>\<open>upsert\<close> and
  \<^verbatim>\<open>delete\<close> select with \<^verbatim>\<open>effectiveToCheckpoint = "latest"\<close>; the versions of an id are
  all rows that the id comparison of the table matches. \<open>is_current\<close> and \<open>created_at\<close>
  are the conditions of the two statements of \<^verbatim>\<open>delete\<close>: the latter selects the current
  version that was created at the checkpoint of the call. A table satisfies its primary key
  when no two rows agree on \<^verbatim>\<open>(id, effectiveToCheckpoint)\<close>.
\<close>

definition hex_digit :: "char \<Rightarrow> bool" where
  "hex_digit c \<longleftrightarrow> c \<in> set ''0123456789abcdefABCDEF''"

definition is_hex :: "string \<Rightarrow> bool" where
  "is_hex q \<longleftrightarrow> take 2 q = ''0x'' \<and> (\<forall>c \<in> set (drop 2 q). hex_digit c)"

definition like_plain :: "string \<Rightarrow> bool" where
  "like_plain p \<longleftrightarrow> (\<forall>c \<in> set p. c \<noteq> CHR ''%'' \<and> c \<noteq> CHR ''_'' \<and> c \<noteq> CHR 0x5C)"


definition current_versions :: "comparator \<Rightarrow> string \<Rightarrow> table \<Rightarrow> row list" where
  "current_versions cmp i t =
     selectFrom t (\<lambda>r. compare_id cmp (id_col r) i \<and> effectiveToCheckpoint r = Latest)"







text \<open>
  The example of the end-to-end scenarios: a table \<^verbatim>\<open>Token\<close> with a \<^verbatim>\<open>bytes\<close> id, a
  \<^verbatim>\<open>bigint\<close> supply and an optional name, and a table \<^verbatim>\<open>Account\<close> with a \<^verbatim>\<open>string\<close> id.
\<close>

definition token_schema :: Schema where
  "token_schema =
     \<lparr>tables = [(''Token'', [(''id'', BaseColumn bytes_t False False),
                             (''supply'', BaseColumn bigint_t False False),
                             (''name'', BaseColumn string_t True False)]),
                (''Account'', [(''id'', BaseColumn string_t False False),
                               (''balance'', BaseColumn bigint_t False False)])],
      enums = []\<rparr>"

definition token_table :: "row list \<Rightarrow> table" where
  "token_table rs =
     \<lparr>columns = [(''id'', \<lparr>sql_type = ''text'', not_null = True, check_in = None\<rparr>),
                 (''supply'', \<lparr>sql_type = ''numeric(78, 0)'', not_null = True, check_in = None\<rparr>),
                 (''name'', \<lparr>sql_type = ''text'', not_null = False, check_in = None\<rparr>)],
      rows = rs\<rparr>"

definition account_table :: "row list \<Rightarrow> table" where
  "account_table rs =
     \<lparr>columns = [(''id'', \<lparr>sql_type = ''text'', not_null = True, check_in = None\<rparr>),
                 (''balance'', \<lparr>sql_type = ''numeric(78, 0)'', not_null = True, check_in = None\<rparr>)],
      rows = rs\<rparr>"

definition token_store :: "row list \<Rightarrow> row list \<Rightarrow> store" where
  "token_store tokens accounts =
     \<lparr>schema = Some token_schema,
      db = [''Token_versioned'' \<mapsto> token_table tokens,
            ''Account_versioned'' \<mapsto> account_table accounts]\<rparr>"

definition token_row :: "string \<Rightarrow> int \<Rightarrow> cptext \<Rightarrow> cptext \<Rightarrow> row" where
  "token_row i supply from to =
     \<lparr>id_col = i, cols = [(''supply'', Num supply), (''name'', Null)],
      effectiveFromCheckpoint = from, effectiveToCheckpoint = to\<rparr>"

definition account_row :: "string \<Rightarrow> int \<Rightarrow> cptext \<Rightarrow> cptext \<Rightarrow> row" where
  "account_row i balance from to =
     \<lparr>id_col = i, cols = [(''balance'', Num balance)],
      effectiveFromCheckpoint = from, effectiveToCheckpoint = to\<rparr>"






text \<open>
  The invariants of the versioned rows that \<^verbatim>\<open>revert\<close> relies on. A table is well
  versioned when every row starts before it ends (invariant 3), no two versions of an id are
  valid at a common checkpoint (invariant 4, which makes the current version of an id
  unique, invariant 1) and every row satisfies the column constraints of its table, as the
  database guarantees. \<open>invariants_hold\<close> asks this of the table of every table name of the
  schema.
\<close>

definition overlapping :: "row \<Rightarrow> row \<Rightarrow> bool" where
  "overlapping x y \<longleftrightarrow>
     text_less (effectiveFromCheckpoint x) (effectiveToCheckpoint y) \<and>
     text_less (effectiveFromCheckpoint y) (effectiveToCheckpoint x)"

definition well_versioned :: "table \<Rightarrow> bool" where
  "well_versioned t \<longleftrightarrow>
     (\<forall>r \<in> set (rows t). text_less (effectiveFromCheckpoint r) (effectiveToCheckpoint r)
                         \<and> check_row t r = None) \<and>
     sorted_wrt (\<lambda>x y. id_col x = id_col y \<longrightarrow> \<not> overlapping x y) (rows t)"

definition invariants_hold :: "store \<Rightarrow> bool" where
  "invariants_hold s \<longleftrightarrow>
     (\<forall>tableName \<in> set (case schema s of None \<Rightarrow> [] | Some sc \<Rightarrow> map fst (tables sc)).
        case db s (versioned tableName) of None \<Rightarrow> False | Some t \<Rightarrow> well_versioned t)"

section \<open>Statements and transactions\<close>

lemma and_then_Inl [simp]: "and_then (Inl e) f = Inl e"
  by (simp add: and_then_def)

lemma and_then_Inr [simp]: "and_then (Inr a) f = f a"
  by (simp add: and_then_def)

lemma and_then_eq_Inr: "and_then m f = Inr x \<longleftrightarrow> (\<exists>a. m = Inr a \<and> f a = Inr x)"
  by (cases m) simp_all

lemma transaction_Inl: "transaction s n body = (Inl e, s') \<Longrightarrow> s' = s"
  by (auto simp: transaction_def split: option.splits sum.splits)


lemma transaction_Some:
  "db s n = Some t \<Longrightarrow>
   transaction s n body =
     (case body t of Inl e \<Rightarrow> (Inl e, s) | Inr (a, t') \<Rightarrow> (Inr a, s\<lparr>db := (db s)(n \<mapsto> t')\<rparr>))"
  by (simp add: transaction_def)




section \<open>What the statements of a write leave behind\<close>





lemma updateTable_Inr:
  assumes "updateTable t f P = Inr (ret, t')"
  shows "ret = map f (filter P (rows t)) \<and> t' = t\<lparr>rows := map (\<lambda>r. if P r then f r else r) (rows t)\<rparr>
       \<and> distinct (map pk (map (\<lambda>r. if P r then f r else r) (rows t)))"
  using assms by (auto simp: updateTable_def Let_def split: if_splits option.splits)






















section \<open>Properties of the scheduling parameters\<close>

text \<open>
  Claim C9. For every rate \<open>R > 0\<close> the interval is \<open>max (1000 / R) 50\<close> milliseconds, and
  the batch size is 1 when the interval equals \<open>1000 / R\<close> and \<open>floor (R / 20)\<close> otherwise.
  The only rate at which both tests of the two formulations differ is \<open>R = 20\<close>, where
  \<open>floor (R / 20)\<close> is 1 as well.
\<close>

theorem scheduling_parameters:
  assumes "0 < R"
  shows "interval R = max (1000 / R) 50
       \<and> requestBatchSize R = (if interval R = 1000 / R then 1 else \<lfloor>R / 20\<rfloor>)"
proof (cases "1000 / R > 50")
  case True
  then show ?thesis by (simp add: interval_def requestBatchSize_def max_def)
next
  case False
  show ?thesis
  proof (cases "1000 / R = 50")
    case True
    with assms have "R = 20" by (simp add: field_simps)
    then show ?thesis by (simp add: interval_def requestBatchSize_def)
  next
    case ne: False
    with False show ?thesis by (simp add: interval_def requestBatchSize_def max_def)
  qed
qed

theorem scheduling_parameters_witness:
  "(0::real) < 40 \<and> interval 40 = max (1000 / 40) 50
     \<and> requestBatchSize 40 = (if interval 40 = 1000 / 40 then 1 else \<lfloor>(40::real) / 20\<rfloor>)
     \<and> interval 40 = 50 \<and> requestBatchSize 40 = 2"
proof -
  have h: "(0::real) < 40" by simp
  have i: "interval 40 = 50" by (simp add: interval_def)
  have b: "requestBatchSize 40 = 2" by (simp add: requestBatchSize_def)
  show ?thesis using h scheduling_parameters [OF h] i b by simp
qed

section \<open>Requests dropped by clear\<close>

lemma dispatch_fields:
  "created (dispatch n s) = created s \<and> promises (dispatch n s) = promises s"
  by (induction n s rule: dispatch.induct) (auto simp: send_def Let_def split: list.splits)

lemma dispatch_moves:
  "waiting (dispatch n s) = drop n (waiting s) \<and> flying (dispatch n s) = flying s @ take n (waiting s)"
proof (induction n s rule: dispatch.induct)
  case (1 s)
  then show ?case by simp
next
  case (2 n s)
  show ?case
  proof (cases "queue s")
    case Nil
    then show ?thesis by (simp add: waiting_def)
  next
    case (Cons t rest)
    let ?s1 = "send t (s\<lparr>queue := rest\<rparr>)"
    have s1: "waiting ?s1 = map promise rest" "flying ?s1 = flying s @ [promise t]"
      by (simp_all add: send_def waiting_def flying_def)
    have ws: "waiting s = promise t # map promise rest" using Cons by (simp add: waiting_def)
    show ?thesis
    proof (cases "queue ?s1 = []")
      case True
      then have r: "rest = []" by (simp add: send_def)
      have "dispatch (Suc n) s = ?s1" using True Cons by (simp add: Let_def)
      then show ?thesis using s1 ws r by simp
    next
      case False
      then have "dispatch (Suc n) s = dispatch n ?s1" using Cons by (simp add: Let_def)
      then show ?thesis using "2.IH"[OF Cons refl False] s1 ws by simp
    qed
  qed
qed

lemma moved_tasks:
  "set (drop n w) \<union> set (f @ take n w) = set w \<union> set f"
  "distinct (w @ f) \<Longrightarrow> distinct (drop n w @ f @ take n w)"
proof -
  have "set (take n w @ drop n w) = set w" by simp
  then have w: "set w = set (take n w) \<union> set (drop n w)" by (simp only: set_append)
  show "set (drop n w) \<union> set (f @ take n w) = set w \<union> set f"
    using w by auto
  assume d: "distinct (w @ f)"
  have "distinct (take n w @ drop n w @ f)"
    using d by (metis append.assoc append_take_drop_id)
  then show "distinct (drop n w @ f @ take n w)"
    by auto
qed

lemma processQueue_fields:
  "created (processQueue now s) = created s \<and> promises (processQueue now s) = promises s"
  by (simp add: processQueue_def Let_def dispatch_fields)

lemma processQueue_moves:
  "\<exists>n. waiting (processQueue now s) = drop n (waiting s) \<and>
       flying (processQueue now s) = flying s @ take n (waiting s)"
proof -
  let ?d = "dispatch (nat (requestBatchSize (maxRequestsPerSecond s))) (s\<lparr>lastRequestTime := now\<rparr>)"
  have w: "waiting (s\<lparr>lastRequestTime := now\<rparr>) = waiting s"
          "flying (s\<lparr>lastRequestTime := now\<rparr>) = flying s"
    by (simp_all add: waiting_def flying_def)
  have z: "waiting s = drop 0 (waiting s) \<and> flying s = flying s @ take 0 (waiting s)" by simp
  have d: "waiting ?d = drop (nat (requestBatchSize (maxRequestsPerSecond s))) (waiting s) \<and>
           flying ?d = flying s @ take (nat (requestBatchSize (maxRequestsPerSecond s))) (waiting s)"
    using dispatch_moves[of "nat (requestBatchSize (maxRequestsPerSecond s))" "s\<lparr>lastRequestTime := now\<rparr>"]
    unfolding w .
  show ?thesis
  proof (cases "on s \<and> queue s \<noteq> []")
    case False
    then have "processQueue now s = s" by (auto simp: processQueue_def)
    then show ?thesis using z by metis
  next
    case active: True
    show ?thesis
    proof (cases "interval (maxRequestsPerSecond s) \<le> now - lastRequestTime s")
      case True
      then have "processQueue now s =
          (if \<not> timing ?d then ?d\<lparr>timing := True,
             timer := Some (interval (maxRequestsPerSecond s) - 0)\<rparr> else ?d)"
        using active by (simp add: processQueue_def Let_def)
      then have "waiting (processQueue now s) = waiting ?d \<and> flying (processQueue now s) = flying ?d"
        by (simp add: waiting_def flying_def)
      then show ?thesis using d by metis
    next
      case False
      then have "processQueue now s =
          (if \<not> timing s then s\<lparr>timing := True,
             timer := Some (interval (maxRequestsPerSecond s) - (now - lastRequestTime s))\<rparr> else s)"
        using active by (simp add: processQueue_def Let_def)
      then have "waiting (processQueue now s) = waiting s \<and> flying (processQueue now s) = flying s"
        by (simp add: waiting_def flying_def)
      then show ?thesis using z by metis
    qed
  qed
qed

lemma processQueue_tasks:
  "set (waiting (processQueue now s)) \<union> set (flying (processQueue now s))
     = set (waiting s) \<union> set (flying s)"
  "distinct (waiting s @ flying s) \<Longrightarrow>
     distinct (waiting (processQueue now s) @ flying (processQueue now s))"
proof -
  obtain n where n: "waiting (processQueue now s) = drop n (waiting s)"
       "flying (processQueue now s) = flying s @ take n (waiting s)"
    using processQueue_moves by blast
  show "set (waiting (processQueue now s)) \<union> set (flying (processQueue now s))
     = set (waiting s) \<union> set (flying s)"
    unfolding n by (rule moved_tasks(1))
  assume "distinct (waiting s @ flying s)"
  then show "distinct (waiting (processQueue now s) @ flying (processQueue now s))"
    unfolding n by (rule moved_tasks(2))
qed

lemma dropped_processQueue: "dropped s p \<Longrightarrow> dropped (processQueue now s) p"
  by (simp add: dropped_def processQueue_tasks processQueue_fields)

lemma queue_wf_processQueue: "queue_wf s \<Longrightarrow> queue_wf (processQueue now s)"
  unfolding queue_wf_def using processQueue_tasks processQueue_fields
  by metis

lemma remove_nth_subset:
  "k < length xs \<Longrightarrow> set (take k xs @ drop (Suc k) xs) \<subseteq> set xs"
  by (auto dest: in_set_takeD in_set_dropD)

lemma distinct_remove_nth:
  assumes d: "distinct (map f xs)" and k: "k < length xs"
  shows "distinct (map f (take k xs @ drop (Suc k) xs)) \<and>
         f (xs ! k) \<notin> set (map f (take k xs @ drop (Suc k) xs))"
proof -
  have "xs = take k xs @ xs ! k # drop (Suc k) xs" using k by (simp add: id_take_nth_drop)
  then have "distinct (map f (take k xs @ xs ! k # drop (Suc k) xs))" using d by simp
  then show ?thesis by auto
qed

lemma settled_step:
  assumes k: "k < length (in_flight s)" and it: "in_flight s ! k = (i, t)"
  shows "created (step s (Settled k outcome)) = created s"
    and "waiting (step s (Settled k outcome)) = waiting s"
    and "flying (step s (Settled k outcome))
           = map (\<lambda>x. promise (snd x)) (take k (in_flight s) @ drop (Suc k) (in_flight s))"
    and "promises (step s (Settled k outcome))
           = (if promises s (promise t) = None
              then (promises s)(promise t \<mapsto> outcome) else promises s)"
  using k it by (simp_all add: waiting_def flying_def)

lemma dropped_step: 
  assumes d: "dropped s p"
  shows "dropped (step s e) p"
proof (cases e)
  case (Request x now)
  have "dropped (s\<lparr>queue := queue s @ [\<lparr>params = x, promise = created s\<rparr>], created := Suc (created s)\<rparr>) p"
    using d by (auto simp: dropped_def waiting_def flying_def)
  then show ?thesis using Request by (simp add: dropped_processQueue)
next
  case (Timeout now)
  show ?thesis
  proof (cases "timer s")
    case None
    then show ?thesis using Timeout d by simp
  next
    case (Some delay)
    have "dropped (s\<lparr>timer := None, timing := False\<rparr>) p"
      using d by (simp add: dropped_def waiting_def flying_def)
    then show ?thesis using Timeout Some by (simp add: dropped_processQueue)
  qed
next
  case (Settled k outcome)
  show ?thesis
  proof (cases "k < length (in_flight s)")
    case False
    then show ?thesis using Settled d by simp
  next
    case True
    obtain i t where it: "in_flight s ! k = (i, t)" by (cases "in_flight s ! k")
    have mem: "(i, t) \<in> set (in_flight s)" using True it by (metis nth_mem)
    then have ne: "promise t \<noteq> p" using d by (force simp: dropped_def flying_def)
    have sub: "set (take k (in_flight s) @ drop (Suc k) (in_flight s)) \<subseteq> set (in_flight s)"
      using True by (rule remove_nth_subset)
    have "p \<notin> set (map (\<lambda>x. promise (snd x)) (take k (in_flight s) @ drop (Suc k) (in_flight s)))"
      using d sub unfolding dropped_def flying_def by (metis (no_types, lifting) UnCI image_mono set_map subsetD)
    then show ?thesis using d ne unfolding Settled dropped_def settled_step[OF True it]
      by auto
  qed
next
  case (Start now)
  have "dropped (s\<lparr>on := True\<rparr>) p" using d by (simp add: dropped_def waiting_def flying_def)
  then show ?thesis using Start by (simp add: dropped_processQueue)
next
  case Pause
  then show ?thesis using d by (simp add: dropped_def waiting_def flying_def)
next
  case Clear
  then show ?thesis using d by (simp add: dropped_def waiting_def flying_def)
qed

lemma dropped_run: "dropped s p \<Longrightarrow> dropped (run s es) p"
  unfolding run_def by (induction es arbitrary: s) (auto simp: dropped_step)

lemma queue_wf_step: 
  assumes w: "queue_wf s"
  shows "queue_wf (step s e)"
proof (cases e)
  case (Request x now)
  have fresh: "created s \<notin> set (waiting s) \<union> set (flying s)"
    using w unfolding queue_wf_def by blast
  have "queue_wf (s\<lparr>queue := queue s @ [\<lparr>params = x, promise = created s\<rparr>], created := Suc (created s)\<rparr>)"
    using w fresh unfolding queue_wf_def waiting_def flying_def
    by (auto simp: less_Suc_eq)
  then show ?thesis using Request by (simp add: queue_wf_processQueue)
next
  case (Timeout now)
  show ?thesis
  proof (cases "timer s")
    case None
    then show ?thesis using Timeout w by simp
  next
    case (Some delay)
    have "queue_wf (s\<lparr>timer := None, timing := False\<rparr>)"
      using w by (simp add: queue_wf_def waiting_def flying_def)
    then show ?thesis using Timeout Some by (simp add: queue_wf_processQueue)
  qed
next
  case (Settled k outcome)
  show ?thesis
  proof (cases "k < length (in_flight s)")
    case False
    then show ?thesis using Settled w by simp
  next
    case True
    obtain i t where it: "in_flight s ! k = (i, t)" by (cases "in_flight s ! k")
    let ?rest = "map (\<lambda>x. promise (snd x)) (take k (in_flight s) @ drop (Suc k) (in_flight s))"
    have sub: "set ?rest \<subseteq> set (flying s)"
      using remove_nth_subset[OF True] unfolding flying_def by auto
    have dq: "distinct (waiting s)" and df: "distinct (flying s)"
      and disj: "set (waiting s) \<inter> set (flying s) = {}"
      using w by (auto simp: queue_wf_def)
    have r: "distinct ?rest" "promise t \<notin> set ?rest"
      using distinct_remove_nth[OF df[unfolded flying_def] True] it by auto
    have mem: "promise t \<in> set (flying s)"
      using True it unfolding flying_def by (metis (no_types, lifting) image_eqI nth_mem set_map snd_conv)
    have nq: "promise t \<notin> set (waiting s)" using disj mem by auto
    have un: "\<forall>p \<in> set (waiting s) \<union> set ?rest. p < created s \<and> promises s p = None \<and> p \<noteq> promise t"
      using w sub r(2) nq unfolding queue_wf_def by blast
    have lt: "promise t < created s" using w mem unfolding queue_wf_def by blast
    have ge: "\<forall>p. created s \<le> p \<longrightarrow> promises s p = None \<and> p \<noteq> promise t"
      using w lt unfolding queue_wf_def by auto
    have disj': "set (waiting s) \<inter> set ?rest = {}" using disj sub by blast
    show ?thesis unfolding Settled queue_wf_def settled_step[OF True it]
      using un ge dq r(1) disj' by auto
  qed
next
  case (Start now)
  have "queue_wf (s\<lparr>on := True\<rparr>)" using w by (simp add: queue_wf_def waiting_def flying_def)
  then show ?thesis using Start by (simp add: queue_wf_processQueue)
next
  case Pause
  then show ?thesis using w by (simp add: queue_wf_def waiting_def flying_def)
next
  case Clear
  then show ?thesis using w by (simp add: queue_wf_def waiting_def flying_def)
qed

lemma queue_wf_run: "queue_wf s \<Longrightarrow> queue_wf (run s es)"
  unfolding run_def by (induction es arbitrary: s) (auto simp: queue_wf_step)

lemma queue_wf_init: "queue_wf (createRequestQueue R)"
  by (simp add: queue_wf_def createRequestQueue_def waiting_def flying_def)

text \<open>
  Claim C10. A task that is still queued when \<^verbatim>\<open>clear()\<close> is called is dropped with its
  \<^verbatim>\<open>resolve\<close> and \<^verbatim>\<open>reject\<close>: whatever happens afterwards (further requests, timers,
  transport results, \<^verbatim>\<open>pause\<close>, \<^verbatim>\<open>start\<close>, \<^verbatim>\<open>clear\<close>), its promise stays unsettled.
  The requests in flight are untouched by \<^verbatim>\<open>clear()\<close>, and each of them settles its
  promise with the result of the transport.
\<close>

theorem cleared_request_never_settles:
  assumes reach: "s = run (createRequestQueue R) before"
      and queued: "t \<in> set (queue s)"
  shows "promises (run (step s Clear) after) (promise t) = None
       \<and> in_flight (step s Clear) = in_flight s
       \<and> (\<forall>k < length (in_flight s).
            promises (step (step s Clear) (Settled k outcome)) (promise (snd (in_flight s ! k)))
              = Some outcome)"
proof -
  have w: "queue_wf s" using reach queue_wf_run[OF queue_wf_init] by simp
  have "dropped (step s Clear) (promise t)"
    using w queued by (auto simp: queue_wf_def dropped_def waiting_def flying_def)
  then have "dropped (run (step s Clear) after) (promise t)" by (rule dropped_run)
  then have a: "promises (run (step s Clear) after) (promise t) = None" by (simp add: dropped_def)
  have b: "in_flight (step s Clear) = in_flight s" by simp
  have c: "promises (step (step s Clear) (Settled k outcome)) (promise (snd (in_flight s ! k))) = Some outcome"
    if k: "k < length (in_flight s)" for k
  proof -
    obtain i u where it: "in_flight s ! k = (i, u)" by (cases "in_flight s ! k")
    have "promise u \<in> set (flying s)"
      using k it unfolding flying_def by (metis (no_types, lifting) image_eqI nth_mem set_map snd_conv)
    then have "promises s (promise u) = None"
      using w by (auto simp: queue_wf_def)
    then show ?thesis using k it by simp
  qed
  show ?thesis using a b c by blast
qed

theorem cleared_request_never_settles_witness:
  "promises (run (step (run (createRequestQueue 1)
                [Request ''eth_chainId'' 5000, Request ''eth_blockNumber'' 5001]) Clear)
             [Timeout 6000, Settled 0 (Resolved ''0x1''), Start 7000])
      (promise \<lparr>params = ''eth_blockNumber'', promise = 1\<rparr>)
     = (None :: (string, string) settlement option)
   \<and> queue (run (createRequestQueue 1 :: (string, string, string) request_queue)
        [Request ''eth_chainId'' 5000, Request ''eth_blockNumber'' 5001])
       = [\<lparr>params = ''eth_blockNumber'', promise = 1\<rparr>]"
proof -
  let ?s = "run (createRequestQueue 1 :: (string, string, string) request_queue)
              [Request ''eth_chainId'' 5000, Request ''eth_blockNumber'' 5001]"
  have q: "queue ?s = [\<lparr>params = ''eth_blockNumber'', promise = 1\<rparr>]"
    by (simp add: run_def createRequestQueue_def processQueue_def interval_def
        requestBatchSize_def send_def Let_def)
  have m: "\<lparr>params = ''eth_blockNumber'', promise = 1\<rparr> \<in> set (queue ?s)"
    by (simp only: q) simp
  show ?thesis
    using cleared_request_never_settles[OF refl m,
        of "[Timeout 6000, Settled 0 (Resolved ''0x1''), Start 7000]"] q
    by simp
qed

section \<open>Rows without a current version\<close>




section \<open>Writes in the past\<close>

lemma idColumnComparator_declared:
  assumes "schema s = Some sc" and "map_of (tables sc) tableName = Some cs"
      and "map_of cs ''id'' = Some idc"
  shows "idColumnComparator (schema s) tableName
           = Inr (if column_type idc = Some ''bytes'' then ILike else Eq)"
  using assms by (simp add: idColumnComparator_def)

lemma deserializeRow_declared:
  assumes "schema s = Some sc" and "map_of (tables sc) tableName = Some cs"
  shows "\<exists>x. deserializeRow (schema s) tableName r = Inr x"
  using assms by (simp add: deserializeRow_def)

lemma update_latest_past:
  assumes "text_less encodedCheckpoint (effectiveFromCheckpoint latestRow)"
      and "\<exists>x. deserialize latestRow = Inr x"
  shows "update_latest comparator deserialize encodedCheckpoint formattedId with_id data latestRow t
           = Inl (Error ''Cannot update a record in the past'')"
proof (cases data)
  case (Partial obj)
  then show ?thesis using assms(1) by (simp add: update_latest_def)
next
  case (Callback f)
  obtain x where "deserialize latestRow = Inr x" using assms(2) by blast
  then show ?thesis using assms(1) Callback by (simp add: update_latest_def)
qed

text \<open>
  Claim C6, as the code has it. When the current version of the id starts at a checkpoint
  \<open>c0\<close> later than the checkpoint \<open>c\<close> of the call, \<^verbatim>\<open>update\<close>, and \<^verbatim>\<open>upsert\<close> on that
  existing row, throw \<^verbatim>\<open>new Error("Cannot update a record in the past")\<close> before any
  statement writes, and the store is unchanged. The error carries that message and nothing
  else.
\<close>

theorem write_in_the_past_fails:
  assumes sch: "schema s = Some sc"
      and decl: "map_of (tables sc) tableName = Some cs"
      and idc: "map_of cs ''id'' = Some idc"
      and tbl: "db s (versioned tableName) = Some t"
      and cur: "current_versions (if column_type idc = Some ''bytes'' then ILike else Eq) i t
                  = latestRow # others"
      and frm: "effectiveFromCheckpoint latestRow = encodeCheckpoint c0"
      and past: "c < c0"
  shows "update s tableName c i data = (Inl (Error ''Cannot update a record in the past''), s)
       \<and> upsert s tableName c i createData data
            = (Inl (Error ''Cannot update a record in the past''), s)"
proof -
  let ?cmp = "if column_type idc = Some ''bytes'' then ILike else Eq"
  have cmp: "idColumnComparator (schema s) tableName = Inr ?cmp"
    using sch decl idc by (rule idColumnComparator_declared)
  have sel: "selectFrom t (\<lambda>r. compare_id ?cmp (id_col r) i \<and> effectiveToCheckpoint r = Latest)
               = latestRow # others"
    using cur by (simp only: current_versions_def)
  have lt: "text_less (encodeCheckpoint c) (effectiveFromCheckpoint latestRow)"
    using frm past by (simp add: encodeCheckpoint_def)
  have des: "\<exists>x. deserializeRow (schema s) tableName latestRow = Inr x"
    using sch decl by (rule deserializeRow_declared)
  have body: "update_latest (Inr ?cmp) (deserializeRow (schema s) tableName) (encodeCheckpoint c) i
                True data latestRow t = Inl (Error ''Cannot update a record in the past'')"
    using lt des by (rule update_latest_past)
  have u: "update s tableName c i data = (Inl (Error ''Cannot update a record in the past''), s)"
    unfolding update_def cmp
    by (simp only: transaction_Some[OF tbl] sel executeTakeFirstOrThrow_def body
        and_then_Inr list.case sum.case prod.case)
  have p: "upsert s tableName c i createData data
             = (Inl (Error ''Cannot update a record in the past''), s)"
    unfolding upsert_def cmp
    by (simp only: transaction_Some[OF tbl] sel executeTakeFirst_def body
        list.case sum.case prod.case option.case)
  show ?thesis using u p by simp
qed

theorem write_in_the_past_fails_witness:
  "update (token_store [token_row ''0x1'' 0 (Encoded 5) Latest] []) ''Token'' 3 ''0x1''
       (Partial [(''supply'', Num 100)])
     = (Inl (Error ''Cannot update a record in the past''),
        token_store [token_row ''0x1'' 0 (Encoded 5) Latest] [])
   \<and> upsert (token_store [token_row ''0x1'' 0 (Encoded 5) Latest] []) ''Token'' 3 ''0x1''
       [(''supply'', Num 1)] (Partial [(''supply'', Num 100)])
     = (Inl (Error ''Cannot update a record in the past''),
        token_store [token_row ''0x1'' 0 (Encoded 5) Latest] [])"
proof -
  let ?s = "token_store [token_row ''0x1'' 0 (Encoded 5) Latest] []"
  let ?cs = "[(''id'', BaseColumn bytes_t False False),
              (''supply'', BaseColumn bigint_t False False),
              (''name'', BaseColumn string_t True False)]"
  have sch: "schema ?s = Some token_schema" by (simp add: token_store_def)
  have decl: "map_of (tables token_schema) ''Token'' = Some ?cs" by (simp add: token_schema_def)
  have idc: "map_of ?cs ''id'' = Some (BaseColumn bytes_t False False)" by simp
  have tbl: "db ?s (versioned ''Token'')
               = Some (token_table [token_row ''0x1'' 0 (Encoded 5) Latest])"
    by code_simp
  have cur: "current_versions
               (if column_type (BaseColumn bytes_t False False) = Some ''bytes'' then ILike else Eq)
               ''0x1'' (token_table [token_row ''0x1'' 0 (Encoded 5) Latest])
             = token_row ''0x1'' 0 (Encoded 5) Latest # []"
    by code_simp
  have frm: "effectiveFromCheckpoint (token_row ''0x1'' 0 (Encoded 5) Latest) = encodeCheckpoint 5"
    by code_simp
  have past: "(3::nat) < 5" by simp
  show ?thesis by (rule write_in_the_past_fails [OF sch decl idc tbl cur frm past])
qed

text \<open>
  The claim as stated says that the failure is surfaced with the table and the id. It is
  not: the failed update of token \<^verbatim>\<open>0x1\<close> and the failed update of account
  \<^verbatim>\<open>alice\<close> raise the same error value, the fixed message.
\<close>

theorem past_write_error_names_no_table_or_id:
  "fst (update (token_store [token_row ''0x1'' 0 (Encoded 5) Latest]
                  [account_row ''alice'' 7 (Encoded 5) Latest])
          ''Token'' 3 ''0x1'' (Partial [(''supply'', Num 100)]))
     = Inl (Error ''Cannot update a record in the past'')
   \<and> fst (update (token_store [token_row ''0x1'' 0 (Encoded 5) Latest]
                  [account_row ''alice'' 7 (Encoded 5) Latest])
          ''Account'' 3 ''alice'' (Partial [(''balance'', Num 9)]))
     = Inl (Error ''Cannot update a record in the past'')"
  by code_simp

section \<open>create followed by update\<close>





section \<open>delete\<close>



section \<open>revert\<close>

lemma text_le_Latest: "text_le enc Latest"
  by (cases enc) (simp_all add: text_le_def)

lemma revert_table_Inr:
  assumes "revert_table enc t = Inr t'"
      and D: "D = (\<lambda>r. text_le enc (effectiveFromCheckpoint r))"
      and U: "U = (\<lambda>r. text_le enc (effectiveToCheckpoint r))"
  shows "columns t' = columns t
       \<and> rows t' = map (\<lambda>r. if U r then set_effectiveToCheckpoint Latest r else r)
                     (filter (\<lambda>r. \<not> D r) (rows t))
       \<and> first_error (map (check_row t)
            (map (set_effectiveToCheckpoint Latest) (filter U (filter (\<lambda>r. \<not> D r) (rows t))))) = None
       \<and> distinct (map pk (rows t'))"
proof -
  let ?t1 = "t\<lparr>rows := filter (\<lambda>r. \<not> D r) (rows t)\<rparr>"
  have "and_then (updateTable ?t1 (set_effectiveToCheckpoint Latest) U) (\<lambda>(ret, t2). Inr t2) = Inr t'"
    using assms(1) unfolding revert_table_def D U by (simp add: deleteFrom_def)
  then obtain ret where ut: "updateTable ?t1 (set_effectiveToCheckpoint Latest) U = Inr (ret, t')"
    unfolding and_then_eq_Inr by auto
  note u = updateTable_Inr[OF ut]
  have chk: "check_row ?t1 = check_row t" by (simp add: check_row_def user_columns_def fun_eq_iff)
  have fe: "first_error (map (check_row ?t1)
              (map (set_effectiveToCheckpoint Latest) (filter U (rows ?t1)))) = None"
    using ut by (auto simp: updateTable_def Let_def split: option.splits if_splits)
  show ?thesis using u fe unfolding chk by simp
qed

lemma revert_table_idem:
  assumes ok: "revert_table enc t = Inr t'"
  shows "revert_table enc t' = Inr t'"
proof -
  define D where "D = (\<lambda>r::row. text_le enc (effectiveFromCheckpoint r))"
  define U where "U = (\<lambda>r::row. text_le enc (effectiveToCheckpoint r))"
  define f where "f = set_effectiveToCheckpoint Latest"
  define kept where "kept = filter (\<lambda>r. \<not> D r) (rows t)"
  note r = revert_table_Inr[OF ok D_def U_def, folded f_def kept_def]
  have rows': "rows t' = map (\<lambda>r. if U r then f r else r) kept" using r by simp
  have Uf: "U (f r)" for r by (simp add: U_def f_def set_effectiveToCheckpoint_def text_le_Latest)
  have Df: "D (f r) = D r" for r by (simp add: D_def f_def set_effectiveToCheckpoint_def)
  have ff: "f (f r) = f r" for r by (simp add: f_def set_effectiveToCheckpoint_def)
  have nD: "\<forall>r \<in> set (rows t'). \<not> D r"
    unfolding rows' kept_def using Df by auto
  have fixd: "\<forall>r \<in> set (rows t'). U r \<longrightarrow> f r = r"
    unfolding rows' using ff Uf by auto
  have del: "filter (\<lambda>r. \<not> D r) (rows t') = rows t'" using nD by simp
  have upd: "map (\<lambda>r. if U r then f r else r) (rows t') = rows t'"
    using fixd by (simp add: map_idI)
  have fU: "filter U (rows t') = map f (filter U kept)"
    unfolding rows' using Uf by (induction kept) auto
  have ret: "map f (filter U (rows t')) = map f (filter U kept)"
    unfolding fU using ff by simp
  have chk: "check_row t' = check_row t"
    using r by (simp add: check_row_def user_columns_def fun_eq_iff)
  have fe: "first_error (map (check_row t') (map f (filter U (rows t')))) = None"
    unfolding ret chk using r by blast
  have t1: "t'\<lparr>rows := rows t'\<rparr> = t'" by simp
  have dist: "distinct (map pk (rows t'))" using r by blast
  have "updateTable t' f U = Inr (map f (filter U (rows t')), t')"
    unfolding updateTable_def Let_def
    by (simp only: fe upd option.case dist if_True t1)
  then show ?thesis
    unfolding revert_table_def deleteFrom_def D_def[symmetric] U_def[symmetric] f_def[symmetric]
    by (simp add: del)
qed

lemma revert_tables_fixed:
  assumes "\<forall>n \<in> set tableNames. \<exists>t. d (versioned n) = Some t \<and> revert_table enc t = Inr t"
  shows "revert_tables enc tableNames d = Inr d"
  using assms
proof (induction tableNames)
  case Nil
  then show ?case by simp
next
  case (Cons n ns)
  then obtain t where t: "d (versioned n) = Some t" "revert_table enc t = Inr t" by auto
  have "d(versioned n \<mapsto> t) = d" using t(1) by (simp add: map_upd_triv)
  then show ?case using t Cons by simp
qed

lemma revert_tables_result:
  assumes "revert_tables enc tableNames d = Inr d'"
  shows "\<forall>n \<in> set tableNames. \<exists>t. d' (versioned n) = Some t \<and> revert_table enc t = Inr t"
    and "\<forall>k. k \<notin> versioned ` set tableNames \<longrightarrow> d' k = d k"
  using assms
proof (induction tableNames arbitrary: d)
  case Nil
  { case 1 show ?case by simp }
  { case 2 then show ?case by simp }
next
  case (Cons n ns)
  { case 1
    obtain t t' where t: "d (versioned n) = Some t" "revert_table enc t = Inr t'"
      and rest: "revert_tables enc ns (d(versioned n \<mapsto> t')) = Inr d'"
      using 1 by (auto simp: and_then_eq_Inr split: option.splits)
    note ih1 = Cons.IH(1)[OF rest] and ih2 = Cons.IH(2)[OF rest]
    have "\<exists>t. d' (versioned n) = Some t \<and> revert_table enc t = Inr t"
    proof (cases "versioned n \<in> versioned ` set ns")
      case True
      then show ?thesis using ih1 by auto
    next
      case False
      then have "d' (versioned n) = Some t'" using ih2 by simp
      then show ?thesis using revert_table_idem[OF t(2)] by simp
    qed
    then show ?case using ih1 by simp }
  { case 2
    obtain t t' where t: "d (versioned n) = Some t" "revert_table enc t = Inr t'"
      and rest: "revert_tables enc ns (d(versioned n \<mapsto> t')) = Inr d'"
      using 2 by (auto simp: and_then_eq_Inr split: option.splits)
    note ih2 = Cons.IH(2)[OF rest]
    show ?case using ih2 by auto }
qed

lemma text_less_trans: "text_less a b \<Longrightarrow> text_le b c \<Longrightarrow> text_less a c"
  by (cases a; cases b; cases c) (auto simp: text_le_def)

lemma text_not_le: "\<not> text_le a b \<Longrightarrow> text_less b a"
  by (cases a; cases b) (auto simp: text_le_def)

lemma text_not_le_Encoded: "\<not> text_le a b \<Longrightarrow> b \<noteq> Latest"
  by (cases a; cases b) (auto simp: text_le_def)

lemma sorted_wrt_distinct_map:
  assumes "sorted_wrt (\<lambda>x y. h x \<noteq> h y) xs"
  shows "distinct (map h xs)"
  using assms by (induction xs) auto

lemma first_error_None:
  assumes "\<forall>e \<in> set es. e = None"
  shows "first_error es = None"
  using assms by (induction es) auto

lemma revert_table_returns:
  assumes wv: "well_versioned t"
  shows "\<exists>t'. revert_table enc t = Inr t'"
proof -
  define D where "D = (\<lambda>r::row. text_le enc (effectiveFromCheckpoint r))"
  define U where "U = (\<lambda>r::row. text_le enc (effectiveToCheckpoint r))"
  define f where "f = set_effectiveToCheckpoint Latest"
  define g where "g = (\<lambda>r. if U r then f r else r)"
  define kept where "kept = filter (\<lambda>r. \<not> D r) (rows t)"
  let ?t1 = "t\<lparr>rows := kept\<rparr>"
  have sub: "set kept \<subseteq> set (rows t)" by (auto simp: kept_def)
  have ok: "\<forall>r \<in> set kept. text_less (effectiveFromCheckpoint r) (effectiveToCheckpoint r)
              \<and> check_row t r = None \<and> \<not> D r"
    using wv by (auto simp: well_versioned_def kept_def)
  have chk: "check_row ?t1 (f r) = check_row t r" for r
    by (simp add: check_row_def user_columns_def f_def set_effectiveToCheckpoint_def)
  have "\<forall>e \<in> set (map (check_row ?t1) (map f (filter U kept))). e = None"
    using ok by (auto simp: chk)
  then have fe: "first_error (map (check_row ?t1) (map f (filter U kept))) = None"
    by (rule first_error_None)
  have sw: "sorted_wrt (\<lambda>x y. id_col x = id_col y \<longrightarrow> \<not> overlapping x y) kept"
    using wv unfolding well_versioned_def kept_def by (simp add: sorted_wrt_filter)
  have key: "pk (g x) \<noteq> pk (g y)"
    if x: "x \<in> set kept" and y: "y \<in> set kept"
      and R: "id_col x = id_col y \<longrightarrow> \<not> overlapping x y" for x y
  proof
    assume eq: "pk (g x) = pk (g y)"
    have ids: "id_col x = id_col y"
      using eq by (auto simp: pk_def g_def f_def set_effectiveToCheckpoint_def split: if_splits)
    have no: "\<not> overlapping x y" using R ids by simp
    have fx: "text_less (effectiveFromCheckpoint x) enc" "text_less (effectiveFromCheckpoint y) enc"
      using ok x y text_not_le unfolding D_def by blast+
    have ix: "text_less (effectiveFromCheckpoint x) (effectiveToCheckpoint x)"
             "text_less (effectiveFromCheckpoint y) (effectiveToCheckpoint y)"
      using ok x y by blast+
    consider "U x \<and> U y" | "U x \<and> \<not> U y" | "\<not> U x \<and> U y" | "\<not> U x \<and> \<not> U y" by blast
    then show False
    proof cases
      case 1
      then have "text_less (effectiveFromCheckpoint x) (effectiveToCheckpoint y)"
                "text_less (effectiveFromCheckpoint y) (effectiveToCheckpoint x)"
        using fx text_less_trans unfolding U_def by blast+
      then show False using no by (simp add: overlapping_def)
    next
      case 2
      then have "effectiveToCheckpoint (g x) = Latest" "effectiveToCheckpoint (g y) \<noteq> Latest"
        using text_not_le_Encoded[of enc "effectiveToCheckpoint y"]
        by (auto simp: g_def f_def set_effectiveToCheckpoint_def U_def)
      then show False using eq by (simp add: pk_def)
    next
      case 3
      then have "effectiveToCheckpoint (g y) = Latest" "effectiveToCheckpoint (g x) \<noteq> Latest"
        using text_not_le_Encoded[of enc "effectiveToCheckpoint x"]
        by (auto simp: g_def f_def set_effectiveToCheckpoint_def U_def)
      then show False using eq by (simp add: pk_def)
    next
      case 4
      then have "effectiveToCheckpoint x = effectiveToCheckpoint y"
        using eq by (simp add: pk_def g_def)
      then show False using no ix by (simp add: overlapping_def)
    qed
  qed
  have "sorted_wrt (\<lambda>x y. pk (g x) \<noteq> pk (g y)) kept"
    using sw key by (rule sorted_wrt_mono_rel[rotated]) 
  then have dist: "distinct (map pk (map g kept))"
    using sorted_wrt_distinct_map[of "\<lambda>r. pk (g r)" kept] by (simp add: comp_def)
  have "updateTable ?t1 f U = Inr (map f (filter U kept), ?t1\<lparr>rows := map g kept\<rparr>)"
    unfolding updateTable_def Let_def using fe dist by (simp add: g_def)
  then show ?thesis
    unfolding revert_table_def deleteFrom_def D_def[symmetric] U_def[symmetric] f_def[symmetric]
      kept_def[symmetric]
    by simp
qed

lemma revert_tables_returns:
  assumes "\<forall>n \<in> set tableNames. \<exists>t t'. d (versioned n) = Some t \<and> revert_table enc t = Inr t'"
  shows "\<exists>d'. revert_tables enc tableNames d = Inr d'"
  using assms
proof (induction tableNames arbitrary: d)
  case Nil
  then show ?case by simp
next
  case (Cons n ns)
  obtain t t' where t: "d (versioned n) = Some t" "revert_table enc t = Inr t'"
    using Cons.prems by auto
  have "\<forall>m \<in> set ns. \<exists>u u'. (d(versioned n \<mapsto> t')) (versioned m) = Some u
                            \<and> revert_table enc u = Inr u'"
    using Cons.prems revert_table_idem[OF t(2)] by auto
  then obtain d' where "revert_tables enc ns (d(versioned n \<mapsto> t')) = Inr d'"
    using Cons.IH by blast
  then show ?case using t by simp
qed

lemma revert_returns:
  assumes "invariants_hold s"
  shows "fst (revert s c) = Inr ()"
proof -
  let ?names = "case schema s of None \<Rightarrow> [] | Some sc \<Rightarrow> map fst (tables sc)"
  have "\<exists>t t'. db s (versioned n) = Some t \<and> revert_table (encodeCheckpoint c) t = Inr t'"
    if "n \<in> set ?names" for n
  proof -
    have "case db s (versioned n) of None \<Rightarrow> False | Some t \<Rightarrow> well_versioned t"
      using assms[unfolded invariants_hold_def] that by (rule bspec)
    then obtain t where t: "db s (versioned n) = Some t" "well_versioned t"
      by (cases "db s (versioned n)") simp_all
    obtain t' where "revert_table (encodeCheckpoint c) t = Inr t'"
      using revert_table_returns[OF t(2), of "encodeCheckpoint c"] by (elim exE)
    then show ?thesis using t(1) by (intro exI conjI)
  qed
  then have "\<forall>n \<in> set ?names. \<exists>t t'. db s (versioned n) = Some t
            \<and> revert_table (encodeCheckpoint c) t = Inr t'"
    by blast
  then obtain d' where "revert_tables (encodeCheckpoint c) ?names (db s) = Inr d'"
    using revert_tables_returns by blast
  then show ?thesis by (simp add: revert_def)
qed

text \<open>
  Claim C5. \<^verbatim>\<open>revert\<close> to a checkpoint, applied to the store that a first \<^verbatim>\<open>revert\<close> to
  the same checkpoint left, returns what the first returned and leaves every table as the
  first left it: after the first call no row starts at or after the checkpoint, and every
  row that ended at or after it is open again, so the second call deletes nothing and
  rewrites open rows as open. This holds for every state of the store. On a store that
  satisfies the invariants of the versioned rows, \<^verbatim>\<open>revert\<close> returns: among the surviving
  versions of an id at most one ends at or after the checkpoint, so reopening meets no
  duplicate key.
\<close>

theorem revert_idempotent:
  "revert (snd (revert s checkpoint)) checkpoint = revert s checkpoint
   \<and> (invariants_hold s \<longrightarrow> fst (revert s checkpoint) = Inr ())"
proof -
  let ?names = "case schema s of None \<Rightarrow> [] | Some sc \<Rightarrow> map fst (tables sc)"
  have twice: "revert (snd (revert s checkpoint)) checkpoint = revert s checkpoint"
  proof (cases "revert_tables (encodeCheckpoint checkpoint) ?names (db s)")
    case (Inl e)
    then show ?thesis by (simp add: revert_def)
  next
    case (Inr d)
    then have first: "revert s checkpoint = (Inr (), s\<lparr>db := d\<rparr>)" by (simp add: revert_def)
    have "revert_tables (encodeCheckpoint checkpoint) ?names d = Inr d"
      using revert_tables_result(1)[OF Inr] by (rule revert_tables_fixed)
    then have "revert (s\<lparr>db := d\<rparr>) checkpoint = (Inr (), s\<lparr>db := d\<rparr>)"
      by (simp add: revert_def)
    then show ?thesis using first by simp
  qed
  show ?thesis using twice revert_returns by blast
qed

theorem revert_idempotent_witness:
  "db (snd (revert (snd (revert (token_store [token_row ''0x1'' 0 (Encoded 1) (Encoded 2),
                                             token_row ''0x1'' 100 (Encoded 2) Latest] []) 2)) 2))
      ''Token_versioned''
     = Some (token_table [token_row ''0x1'' 0 (Encoded 1) Latest])
   \<and> fst (revert (snd (revert (token_store [token_row ''0x1'' 0 (Encoded 1) (Encoded 2),
                                             token_row ''0x1'' 100 (Encoded 2) Latest] []) 2)) 2)
     = Inr ()"
proof -
  let ?s = "token_store [token_row ''0x1'' 0 (Encoded 1) (Encoded 2),
                         token_row ''0x1'' 100 (Encoded 2) Latest] []"
  have once: "db (snd (revert ?s 2)) ''Token_versioned''
                = Some (token_table [token_row ''0x1'' 0 (Encoded 1) Latest])"
    by code_simp
  have inv: "invariants_hold ?s" by code_simp
  show ?thesis using revert_idempotent [of ?s 2] once inv by simp
qed

section \<open>At most one current version\<close>





























section \<open>The id comparison of a table\<close>


lemma hex_digit_plain:
  "hex_digit c \<Longrightarrow> c \<noteq> CHR ''%'' \<and> c \<noteq> CHR ''_'' \<and> c \<noteq> CHR 0x5C"
  by (auto simp: hex_digit_def)

lemma hex_is_plain:
  assumes "is_hex q"
  shows "like_plain q"
proof -
  have q: "set q = set (take 2 q) \<union> set (drop 2 q)"
    using set_append[of "take 2 q" "drop 2 q"] by simp
  have t: "take 2 q = ''0x''" and h: "\<forall>c \<in> set (drop 2 q). hex_digit c"
    using assms unfolding is_hex_def by blast+
  have a: "\<forall>c \<in> set (take 2 q). c \<noteq> CHR ''%'' \<and> c \<noteq> CHR ''_'' \<and> c \<noteq> CHR 0x5C"
    unfolding t by simp
  have b: "\<forall>c \<in> set (drop 2 q). c \<noteq> CHR ''%'' \<and> c \<noteq> CHR ''_'' \<and> c \<noteq> CHR 0x5C"
    using h hex_digit_plain by blast
  show ?thesis unfolding like_plain_def q using a b by blast
qed







end
